theory Spec2Isabelle
  imports Complex_Main "HOL-Library.AList" "HOL-Library.Sublist"
begin

section \<open>Task queue of the document intelligence backend (app/core/task\_queue.py)\<close>

subsection \<open>Values\<close>

text \<open>
  Python values that a submitted callable may return and that a status dictionary may hold.
  \<open>PyNone\<close> is Python's \<^verbatim>\<open>None\<close>: the dataclass default of \<^verbatim>\<open>Task.result\<close>, and also a
  value a callable can return.
\<close>

datatype pyval =
    PyNone
  | PyBool bool
  | PyInt int
  | PyFloat real
  | PyStr string
  | PyList "pyval list"
  | PyDict "(string \<times> pyval) list"

text \<open>\<^verbatim>\<open>class TaskStatus(str, Enum)\<close> and its \<^verbatim>\<open>.value\<close>.\<close>

datatype TaskStatus = PENDING | PROCESSING | COMPLETED | FAILED

fun TaskStatus_value :: "TaskStatus \<Rightarrow> string" where
  "TaskStatus_value PENDING = ''pending''"
| "TaskStatus_value PROCESSING = ''processing''"
| "TaskStatus_value COMPLETED = ''completed''"
| "TaskStatus_value FAILED = ''failed''"

text \<open>
  \<^verbatim>\<open>@dataclass class Task\<close>. The field \<^verbatim>\<open>id\<close> is named \<open>id_field\<close> here. Timestamps are the
  readings of \<^verbatim>\<open>time.time()\<close>, taken as exact numbers.
\<close>

record Task =
  id_field :: string
  status :: TaskStatus
  created_at :: real
  updated_at :: real
  result :: pyval
  error :: "string option"

text \<open>\<^verbatim>\<open>Task.to_dict\<close>: \<^verbatim>\<open>asdict(self)\<close> with the status replaced by its string value.\<close>

definition to_dict :: "Task \<Rightarrow> (string \<times> pyval) list" where
  "to_dict t =
     [(''id'', PyStr (id_field t)),
      (''status'', PyStr (TaskStatus_value (status t))),
      (''created_at'', PyFloat (created_at t)),
      (''updated_at'', PyFloat (updated_at t)),
      (''result'', result t),
      (''error'', (case error t of None \<Rightarrow> PyNone | Some e \<Rightarrow> PyStr e))]"

text \<open>
  What calling the submitted callable does: it returns a value, raises an exception derived
  from \<^verbatim>\<open>Exception\<close> whose \<^verbatim>\<open>str(e)\<close> is the given text, or raises a \<^verbatim>\<open>BaseException\<close> that is
  not an \<^verbatim>\<open>Exception\<close> (\<^verbatim>\<open>SystemExit\<close>, \<^verbatim>\<open>KeyboardInterrupt\<close>), which \<^verbatim>\<open>except Exception\<close> does
  not catch.
\<close>

datatype outcome =
    Returned pyval
  | RaisedException string
  | RaisedBaseException string

text \<open>Exceptions that leave a method of the queue.\<close>

datatype fault =
    KeyError string
  | ValueError
  | JSONDecodeError
  | Uncaught string
  | OutsideModel

subsection \<open>TaskQueue: the in-memory store\<close>

text \<open>
  \<^verbatim>\<open>self._tasks\<close> is a dict, kept as an association list in insertion order: \<^verbatim>\<open>d[k] = v\<close> is
  \<open>AList.update\<close>, \<^verbatim>\<open>d.get(k)\<close> is \<open>map_of\<close>, \<^verbatim>\<open>del d[k]\<close> is \<open>AList.delete\<close>.
  \<^verbatim>\<open>self._executor\<close> is the thread pool: the jobs handed to it that no worker has started
  (\<open>executor_queue\<close>) and the jobs a worker is running (\<open>executor_running\<close>). A job is the
  task identifier with what the callable will do when called.
\<close>

type_synonym job = "string \<times> outcome"

record TaskQueue =
  tasks :: "(string \<times> Task) list"
  executor_queue :: "job list"
  executor_running :: "job list"

text \<open>
  \<^verbatim>\<open>TaskQueue.__init__\<close>: \<^verbatim>\<open>ThreadPoolExecutor(max_workers=...)\<close> raises \<^verbatim>\<open>ValueError\<close> when
  \<^verbatim>\<open>max_workers <= 0\<close>.
\<close>

definition TaskQueue_init :: "int \<Rightarrow> fault + TaskQueue" where
  "TaskQueue_init max_workers =
     (if max_workers \<le> 0 then Inl ValueError
      else Inr \<lparr>tasks = [], executor_queue = [], executor_running = []\<rparr>)"

text \<open>
  \<^verbatim>\<open>TaskQueue.submit\<close>. The identifier \<^verbatim>\<open>str(uuid.uuid4())\<close> and the two readings of
  \<^verbatim>\<open>time.time()\<close> come from the environment.
\<close>

definition TaskQueue_submit ::
  "TaskQueue \<Rightarrow> string \<Rightarrow> real \<Rightarrow> real \<Rightarrow> outcome \<Rightarrow> TaskQueue \<times> string" where
  "TaskQueue_submit q task_id t1 t2 func =
     (let task = \<lparr>id_field = task_id, status = PENDING, created_at = t1, updated_at = t2,
                  result = PyNone, error = None\<rparr>
      in (q\<lparr>tasks := AList.update task_id task (tasks q),
            executor_queue := executor_queue q @ [(task_id, func)]\<rparr>, task_id))"

text \<open>
  \<^verbatim>\<open>TaskQueue._execute_task\<close>, lines 64 to 66: the first block under the lock.
  \<^verbatim>\<open>self._tasks[task_id]\<close> raises \<^verbatim>\<open>KeyError\<close> when the record is not in the dict.
\<close>

definition execute_task_begin ::
  "(string \<times> Task) list \<Rightarrow> string \<Rightarrow> real \<Rightarrow> fault + (string \<times> Task) list" where
  "execute_task_begin ts task_id now =
     (case map_of ts task_id of
        None \<Rightarrow> Inl (KeyError task_id)
      | Some t \<Rightarrow> Inr (AList.update task_id (t\<lparr>status := PROCESSING, updated_at := now\<rparr>) ts))"

text \<open>Lines 71 to 74: the block of the normal return.\<close>

definition set_completed ::
  "(string \<times> Task) list \<Rightarrow> string \<Rightarrow> pyval \<Rightarrow> real \<Rightarrow> fault + (string \<times> Task) list" where
  "set_completed ts task_id res now =
     (case map_of ts task_id of
        None \<Rightarrow> Inl (KeyError task_id)
      | Some t \<Rightarrow>
          Inr (AList.update task_id
                 (t\<lparr>status := COMPLETED, result := res, updated_at := now\<rparr>) ts))"

text \<open>Lines 79 to 82: the block of the handler.\<close>

definition set_failed ::
  "(string \<times> Task) list \<Rightarrow> string \<Rightarrow> string \<Rightarrow> real \<Rightarrow> fault + (string \<times> Task) list" where
  "set_failed ts task_id msg now =
     (case map_of ts task_id of
        None \<Rightarrow> Inl (KeyError task_id)
      | Some t \<Rightarrow>
          Inr (AList.update task_id
                 (t\<lparr>status := FAILED, error := Some msg, updated_at := now\<rparr>) ts))"

text \<open>\<^verbatim>\<open>str(KeyError(k))\<close> is the \<^verbatim>\<open>repr\<close> of the key; identifiers are UUID texts.\<close>

definition str_KeyError :: "string \<Rightarrow> string" where
  "str_KeyError k = [CHR 0x27] @ k @ [CHR 0x27]"

text \<open>
  Lines 68 to 84: the \<^verbatim>\<open>try\<close> statement. A \<^verbatim>\<open>KeyError\<close> raised in the block of the normal
  return is an \<^verbatim>\<open>Exception\<close>, so the handler runs on it. The result is the dict afterwards
  and the exception that leaves \<^verbatim>\<open>_execute_task\<close>, if any.
\<close>

definition execute_task_run ::
  "(string \<times> Task) list \<Rightarrow> string \<Rightarrow> outcome \<Rightarrow> real
     \<Rightarrow> (string \<times> Task) list \<times> fault option" where
  "execute_task_run ts task_id func now =
     (case func of
        Returned res \<Rightarrow>
          (case set_completed ts task_id res now of
             Inr ts' \<Rightarrow> (ts', None)
           | Inl e \<Rightarrow>
               (case set_failed ts task_id (str_KeyError task_id) now of
                  Inr ts' \<Rightarrow> (ts', None)
                | Inl e' \<Rightarrow> (ts, Some e')))
      | RaisedException msg \<Rightarrow>
          (case set_failed ts task_id msg now of
             Inr ts' \<Rightarrow> (ts', None)
           | Inl e' \<Rightarrow> (ts, Some e'))
      | RaisedBaseException msg \<Rightarrow> (ts, Some (Uncaught msg)))"

text \<open>\<^verbatim>\<open>TaskQueue._execute_task\<close> run by one worker with no other thread in between.\<close>

definition execute_task ::
  "TaskQueue \<Rightarrow> string \<Rightarrow> outcome \<Rightarrow> real \<Rightarrow> real \<Rightarrow> TaskQueue \<times> fault option" where
  "execute_task q task_id func t1 t2 =
     (case execute_task_begin (tasks q) task_id t1 of
        Inl e \<Rightarrow> (q, Some e)
      | Inr ts \<Rightarrow>
          (case execute_task_run ts task_id func t2 of
             (ts', r) \<Rightarrow> (q\<lparr>tasks := ts'\<rparr>, r)))"

text \<open>\<^verbatim>\<open>TaskQueue.get_task\<close> and \<^verbatim>\<open>TaskQueue.get_task_status\<close>.\<close>

definition get_task :: "TaskQueue \<Rightarrow> string \<Rightarrow> Task option" where
  "get_task q task_id = map_of (tasks q) task_id"

definition TaskQueue_get_task_status ::
  "TaskQueue \<Rightarrow> string \<Rightarrow> (string \<times> pyval) list option" where
  "TaskQueue_get_task_status q task_id =
     (case get_task q task_id of
        Some task \<Rightarrow> Some (to_dict task)
      | None \<Rightarrow> None)"

text \<open>
  \<^verbatim>\<open>TaskQueue.cleanup_old_tasks\<close>. The function has no \<^verbatim>\<open>return\<close> statement: it gives back
  \<^verbatim>\<open>None\<close>, and the number of removed records goes to the log only. The result here is the
  queue afterwards, the count in the log line and the returned value.
\<close>

definition to_remove :: "(string \<times> Task) list \<Rightarrow> real \<Rightarrow> int \<Rightarrow> string list" where
  "to_remove ts current_time max_age =
     map fst (filter (\<lambda>(tid, task). current_time - created_at task > real_of_int max_age) ts)"

definition cleanup_old_tasks :: "TaskQueue \<Rightarrow> real \<Rightarrow> int \<Rightarrow> TaskQueue \<times> nat \<times> pyval" where
  "cleanup_old_tasks q current_time max_age =
     (let rm = to_remove (tasks q) current_time max_age
      in (q\<lparr>tasks := foldl (\<lambda>d tid. AList.delete tid d) (tasks q) rm\<rparr>, length rm, PyNone))"

text \<open>
  What the threads do to one queue, one step at a time. Each block under \<^verbatim>\<open>self._lock\<close> is
  one step: a submission, a worker taking the oldest job and running lines 64 to 66, a
  worker whose callable has finished running lines 68 to 84, and a retention sweep. A
  worker whose first block raises \<^verbatim>\<open>KeyError\<close> drops the job (the pool keeps the exception
  in the job's future).
\<close>

datatype event =
    Submit string real real outcome
  | WorkerBegin real
  | WorkerFinish string real
  | Sweep real int

fun exec :: "TaskQueue \<Rightarrow> event \<Rightarrow> TaskQueue" where
  "exec q (Submit task_id t1 t2 func) = fst (TaskQueue_submit q task_id t1 t2 func)"
| "exec q (WorkerBegin now) =
     (case executor_queue q of
        [] \<Rightarrow> q
      | (task_id, func) # rest \<Rightarrow>
          (case execute_task_begin (tasks q) task_id now of
             Inl e \<Rightarrow> q\<lparr>executor_queue := rest\<rparr>
           | Inr ts \<Rightarrow>
               q\<lparr>tasks := ts, executor_queue := rest,
                 executor_running := executor_running q @ [(task_id, func)]\<rparr>))"
| "exec q (WorkerFinish task_id now) =
     (case map_of (executor_running q) task_id of
        None \<Rightarrow> q
      | Some func \<Rightarrow>
          q\<lparr>tasks := fst (execute_task_run (tasks q) task_id func now),
            executor_running := AList.delete task_id (executor_running q)\<rparr>)"
| "exec q (Sweep now max_age) = fst (cleanup_old_tasks q now max_age)"

definition run :: "TaskQueue \<Rightarrow> event list \<Rightarrow> TaskQueue" where
  "run q evs = foldl exec q evs"

definition empty_queue :: TaskQueue where
  "empty_queue = \<lparr>tasks = [], executor_queue = [], executor_running = []\<rparr>"

text \<open>The identifiers issued and the clock readings taken by a list of steps, in order.\<close>

fun submitted :: "event list \<Rightarrow> string list" where
  "submitted [] = []"
| "submitted (Submit task_id t1 t2 func # evs) = task_id # submitted evs"
| "submitted (e # evs) = submitted evs"


text \<open>The order of the lifecycle: one step keeps a status or moves it along one arrow.\<close>

fun advances :: "TaskStatus \<Rightarrow> TaskStatus \<Rightarrow> bool" where
  "advances PENDING PROCESSING = True"
| "advances PROCESSING COMPLETED = True"
| "advances PROCESSING FAILED = True"
| "advances a b = (a = b)"

text \<open>The statuses a record shows after each step of a run, while it is in the store.\<close>

fun observed :: "TaskQueue \<Rightarrow> event list \<Rightarrow> string \<Rightarrow> TaskStatus list" where
  "observed q [] task_id = []"
| "observed q (e # evs) task_id =
     (case map_of (tasks (exec q e)) task_id of
        None \<Rightarrow> observed (exec q e) evs task_id
      | Some t \<Rightarrow> status t # observed (exec q e) evs task_id)"

subsection \<open>The JSON decoder used by the shared-store backend\<close>

text \<open>
  \<^verbatim>\<open>json.loads\<close> of the standard library, on the texts it decodes to \<open>pyval\<close> without
  floats: \<^verbatim>\<open>null\<close>, \<^verbatim>\<open>true\<close>, \<^verbatim>\<open>false\<close>, integers, strings with the one-letter escapes,
  arrays and objects. A number with a fraction or an exponent, \<^verbatim>\<open>NaN\<close>, \<^verbatim>\<open>Infinity\<close> and a
  \<^verbatim>\<open>\u\<close> escape are valid for \<^verbatim>\<open>json.loads\<close> and are marked \<open>OutsideModel\<close> here; a text
  that \<^verbatim>\<open>json.loads\<close> rejects gives \<open>JSONDecodeError\<close>. The recursion over nested values
  runs on a counter that starts one above the length of the text, which is more than a
  text can nest.
\<close>

definition is_ws :: "char \<Rightarrow> bool" where
  "is_ws c = (c = CHR 0x20 \<or> c = CHR 0x09 \<or> c = CHR 0x0A \<or> c = CHR 0x0D)"

definition skip_ws :: "string \<Rightarrow> string" where
  "skip_ws cs = dropWhile is_ws cs"

definition is_digit :: "char \<Rightarrow> bool" where
  "is_digit c = (48 \<le> (of_char c :: nat) \<and> (of_char c :: nat) \<le> 57)"

definition digits_val :: "string \<Rightarrow> int" where
  "digits_val ds = foldl (\<lambda>a c. 10 * a + (int (of_char c) - 48)) 0 ds"

definition unescape :: "char \<Rightarrow> char option" where
  "unescape e =
     (if e = CHR 0x22 then Some (CHR 0x22)
      else if e = CHR 0x5C then Some (CHR 0x5C)
      else if e = CHR ''/'' then Some (CHR ''/'')
      else if e = CHR ''b'' then Some (CHR 0x08)
      else if e = CHR ''f'' then Some (CHR 0x0C)
      else if e = CHR ''n'' then Some (CHR 0x0A)
      else if e = CHR ''r'' then Some (CHR 0x0D)
      else if e = CHR ''t'' then Some (CHR 0x09)
      else None)"

fun scan_string :: "string \<Rightarrow> string \<Rightarrow> fault + (string \<times> string)" where
  "scan_string acc [] = Inl JSONDecodeError"
| "scan_string acc [c] = (if c = CHR 0x22 then Inr (acc, []) else Inl JSONDecodeError)"
| "scan_string acc (c # e # cs) =
     (if c = CHR 0x22 then Inr (acc, e # cs)
      else if c = CHR 0x5C then
        (case unescape e of
           Some ch \<Rightarrow> scan_string (acc @ [ch]) cs
         | None \<Rightarrow> if e = CHR ''u'' then Inl OutsideModel else Inl JSONDecodeError)
      else if (of_char c :: nat) < 32 then Inl JSONDecodeError
      else scan_string (acc @ [c]) (e # cs))"

definition has_frac :: "string \<Rightarrow> bool" where
  "has_frac cs = (case cs of c # d # r \<Rightarrow> c = CHR ''.'' \<and> is_digit d | _ \<Rightarrow> False)"

definition has_exp :: "string \<Rightarrow> bool" where
  "has_exp cs =
     (case cs of
        c # d # r \<Rightarrow>
          (c = CHR ''e'' \<or> c = CHR ''E'') \<and>
          (is_digit d \<or>
           ((d = CHR ''+'' \<or> d = CHR ''-'') \<and> (case r of x # r' \<Rightarrow> is_digit x | [] \<Rightarrow> False)))
      | _ \<Rightarrow> False)"

definition scan_number :: "string \<Rightarrow> fault + (pyval \<times> string)" where
  "scan_number cs =
     (let neg = (case cs of c # r \<Rightarrow> c = CHR ''-'' | [] \<Rightarrow> False);
          body = (if neg then tl cs else cs);
          ds = (case body of c # r \<Rightarrow> if c = CHR ''0'' then [c] else takeWhile is_digit body
                | [] \<Rightarrow> []);
          rest = drop (length ds) body
      in if ds = [] then
           (if neg \<and> prefix ''Infinity'' body then Inl OutsideModel else Inl JSONDecodeError)
         else if has_frac rest \<or> has_exp rest then Inl OutsideModel
         else Inr (PyInt ((if neg then - 1 else 1) * digits_val ds), rest))"

fun parse_value :: "nat \<Rightarrow> string \<Rightarrow> fault + (pyval \<times> string)"
  and parse_array :: "nat \<Rightarrow> pyval list \<Rightarrow> string \<Rightarrow> fault + (pyval \<times> string)"
  and parse_object :: "nat \<Rightarrow> (string \<times> pyval) list \<Rightarrow> string \<Rightarrow> fault + (pyval \<times> string)"
where
  "parse_value 0 cs = Inl OutsideModel"
| "parse_value (Suc n) cs =
     (case cs of
        [] \<Rightarrow> Inl JSONDecodeError
      | c # r \<Rightarrow>
          if c = CHR 0x22 then
            (case scan_string [] r of Inl e \<Rightarrow> Inl e | Inr (s, r') \<Rightarrow> Inr (PyStr s, r'))
          else if c = CHR ''{'' then
            (if prefix ''}'' (skip_ws r) then Inr (PyDict [], tl (skip_ws r))
             else parse_object n [] (skip_ws r))
          else if c = CHR ''['' then
            (if prefix '']'' (skip_ws r) then Inr (PyList [], tl (skip_ws r))
             else parse_array n [] (skip_ws r))
          else if prefix ''null'' cs then Inr (PyNone, drop 4 cs)
          else if prefix ''true'' cs then Inr (PyBool True, drop 4 cs)
          else if prefix ''false'' cs then Inr (PyBool False, drop 5 cs)
          else if is_digit c \<or> c = CHR ''-'' then scan_number cs
          else if prefix ''NaN'' cs \<or> prefix ''Infinity'' cs then Inl OutsideModel
          else Inl JSONDecodeError)"
| "parse_array 0 acc cs = Inl OutsideModel"
| "parse_array (Suc n) acc cs =
     (case parse_value n cs of
        Inl e \<Rightarrow> Inl e
      | Inr (v, r) \<Rightarrow>
          (case skip_ws r of
             [] \<Rightarrow> Inl JSONDecodeError
           | c # r' \<Rightarrow>
               if c = CHR '']'' then Inr (PyList (acc @ [v]), r')
               else if c = CHR '','' then parse_array n (acc @ [v]) (skip_ws r')
               else Inl JSONDecodeError))"
| "parse_object 0 acc cs = Inl OutsideModel"
| "parse_object (Suc n) acc cs =
     (case cs of
        [] \<Rightarrow> Inl JSONDecodeError
      | c # r \<Rightarrow>
          if c \<noteq> CHR 0x22 then Inl JSONDecodeError
          else
            (case scan_string [] r of
               Inl e \<Rightarrow> Inl e
             | Inr (k, r1) \<Rightarrow>
                 if \<not> prefix '':'' (skip_ws r1) then Inl JSONDecodeError
                 else
                   (case parse_value n (skip_ws (tl (skip_ws r1))) of
                      Inl e \<Rightarrow> Inl e
                    | Inr (v, r3) \<Rightarrow>
                        (case skip_ws r3 of
                           [] \<Rightarrow> Inl JSONDecodeError
                         | c3 # r4 \<Rightarrow>
                             if c3 = CHR ''}'' then Inr (PyDict (AList.update k v acc), r4)
                             else if c3 = CHR '','' then
                               parse_object n (AList.update k v acc) (skip_ws r4)
                             else Inl JSONDecodeError))))"

definition json_loads :: "string \<Rightarrow> fault + pyval" where
  "json_loads s =
     (case parse_value (Suc (length s)) (skip_ws s) of
        Inl e \<Rightarrow> Inl e
      | Inr (v, r) \<Rightarrow> if skip_ws r = [] then Inr v else Inl JSONDecodeError)"

subsection \<open>RedisTaskQueue: the shared-store backend\<close>

text \<open>
  The external store holds one hash per key. \<^verbatim>\<open>hset\<close> writes fields into the hash of a key
  and creates it when missing; \<^verbatim>\<open>hgetall\<close> gives every field of the hash, and the empty
  dict for a key that is not there.
\<close>

type_synonym redis_hash = "(string \<times> string) list"

type_synonym redis_db = "string \<Rightarrow> redis_hash option"

definition hgetall :: "redis_db \<Rightarrow> string \<Rightarrow> redis_hash" where
  "hgetall db key = (case db key of None \<Rightarrow> [] | Some h \<Rightarrow> h)"

definition hset_mapping :: "redis_db \<Rightarrow> string \<Rightarrow> redis_hash \<Rightarrow> redis_db" where
  "hset_mapping db key m =
     db(key \<mapsto> foldl (\<lambda>h (f, v). AList.update f v h) (hgetall db key) m)"

definition hset :: "redis_db \<Rightarrow> string \<Rightarrow> string \<Rightarrow> string \<Rightarrow> redis_db" where
  "hset db key f v = hset_mapping db key [(f, v)]"

definition task_key :: "string \<Rightarrow> string" where
  "task_key task_id = ''task:'' @ task_id"

text \<open>
  A \<^verbatim>\<open>RedisTaskQueue\<close> object after \<^verbatim>\<open>__init__\<close>: either \<^verbatim>\<open>self._redis\<close> is a client with
  \<^verbatim>\<open>self._executor\<close> (the jobs queued and the jobs running), or \<^verbatim>\<open>self._redis\<close> is \<^verbatim>\<open>None\<close>
  and \<^verbatim>\<open>self._fallback\<close> is a \<^verbatim>\<open>TaskQueue\<close>.
\<close>

datatype RedisTaskQueue =
    Live redis_db "job list" "job list"
  | Degraded TaskQueue

text \<open>
  \<^verbatim>\<open>RedisTaskQueue.__init__\<close>. \<open>connect\<close> is what \<^verbatim>\<open>import redis\<close>, \<^verbatim>\<open>redis.from_url\<close> and
  \<^verbatim>\<open>ping\<close> give: the store, or \<open>None\<close> when one of them raises. The pool is built inside the
  \<^verbatim>\<open>try\<close>, so its \<^verbatim>\<open>ValueError\<close> also leads to the handler; the handler builds the
  \<^verbatim>\<open>TaskQueue\<close> outside any \<^verbatim>\<open>try\<close>.
\<close>

definition RedisTaskQueue_init :: "redis_db option \<Rightarrow> int \<Rightarrow> fault + RedisTaskQueue" where
  "RedisTaskQueue_init connect max_workers =
     (case (case connect of
              None \<Rightarrow> None
            | Some db \<Rightarrow> if max_workers \<le> 0 then None else Some (Live db [] [])) of
        Some q \<Rightarrow> Inr q
      | None \<Rightarrow>
          (case TaskQueue_init max_workers of
             Inl e \<Rightarrow> Inl e
           | Inr fb \<Rightarrow> Inr (Degraded fb)))"

text \<open>
  \<^verbatim>\<open>RedisTaskQueue.submit\<close>. No value of \<^verbatim>\<open>task_data\<close> is a dict or a list, so every field
  is written as \<^verbatim>\<open>str(v)\<close>: the identifier and the status as they are, the two floats as
  Python prints them (\<open>str_float\<close>, a parameter), and \<^verbatim>\<open>str(None)\<close>, the text \<^verbatim>\<open>None\<close>, for
  \<^verbatim>\<open>result\<close> and \<^verbatim>\<open>error\<close>.
\<close>

definition RedisTaskQueue_submit ::
  "(real \<Rightarrow> string) \<Rightarrow> RedisTaskQueue \<Rightarrow> string \<Rightarrow> real \<Rightarrow> real \<Rightarrow> outcome
     \<Rightarrow> RedisTaskQueue \<times> string" where
  "RedisTaskQueue_submit str_float q task_id t1 t2 func =
     (case q of
        Degraded fb \<Rightarrow>
          (case TaskQueue_submit fb task_id t1 t2 func of
             (fb', r) \<Rightarrow> (Degraded fb', r))
      | Live db queued running \<Rightarrow>
          (Live (hset_mapping db (task_key task_id)
                   [(''id'', task_id),
                    (''status'', TaskStatus_value PENDING),
                    (''created_at'', str_float t1),
                    (''updated_at'', str_float t2),
                    (''result'', ''None''),
                    (''error'', ''None'')])
                (queued @ [(task_id, func)]) running,
           task_id))"

text \<open>
  \<^verbatim>\<open>RedisTaskQueue._execute_task\<close>: lines 146 to 148, then the \<^verbatim>\<open>try\<close> statement.
  \<^verbatim>\<open>json.dumps\<close> is a parameter; \<open>Inl msg\<close> is its \<^verbatim>\<open>TypeError\<close> with that \<^verbatim>\<open>str(e)\<close> on a
  value it cannot encode, raised after the status was set to \<^verbatim>\<open>completed\<close> and caught by
  the handler.
\<close>

definition redis_execute_begin ::
  "(real \<Rightarrow> string) \<Rightarrow> redis_db \<Rightarrow> string \<Rightarrow> real \<Rightarrow> redis_db" where
  "redis_execute_begin str_float db task_id now =
     hset (hset db (task_key task_id) ''status'' (TaskStatus_value PROCESSING))
       (task_key task_id) ''updated_at'' (str_float now)"

definition redis_set_failed ::
  "(real \<Rightarrow> string) \<Rightarrow> redis_db \<Rightarrow> string \<Rightarrow> string \<Rightarrow> real \<Rightarrow> redis_db" where
  "redis_set_failed str_float db task_id msg now =
     hset (hset (hset db (task_key task_id) ''status'' (TaskStatus_value FAILED))
             (task_key task_id) ''error'' msg)
       (task_key task_id) ''updated_at'' (str_float now)"

definition redis_execute_run ::
  "(real \<Rightarrow> string) \<Rightarrow> (pyval \<Rightarrow> string + string) \<Rightarrow> redis_db \<Rightarrow> string
     \<Rightarrow> outcome \<Rightarrow> real \<Rightarrow> redis_db \<times> fault option" where
  "redis_execute_run str_float json_dumps db task_id func now =
     (case func of
        Returned res \<Rightarrow>
          (let db1 = hset db (task_key task_id) ''status'' (TaskStatus_value COMPLETED)
           in case json_dumps res of
                Inr txt \<Rightarrow>
                  (hset (hset db1 (task_key task_id) ''result'' txt)
                     (task_key task_id) ''updated_at'' (str_float now), None)
              | Inl msg \<Rightarrow> (redis_set_failed str_float db1 task_id msg now, None))
      | RaisedException msg \<Rightarrow> (redis_set_failed str_float db task_id msg now, None)
      | RaisedBaseException msg \<Rightarrow> (db, Some (Uncaught msg)))"

text \<open>
  \<^verbatim>\<open>RedisTaskQueue.get_task_status\<close>. The dict comprehension goes through the fields of the
  hash in order; \<^verbatim>\<open>json.loads\<close> is applied to a non-empty \<^verbatim>\<open>result\<close> field and its exception
  leaves the method; every other field is decoded as text.
\<close>

fun decode_items ::
  "(string \<times> pyval) list \<Rightarrow> redis_hash \<Rightarrow> fault + (string \<times> pyval) list" where
  "decode_items acc [] = Inr acc"
| "decode_items acc ((k, v) # items) =
     (if k = ''result'' \<and> v \<noteq> [] then
        (case json_loads v of
           Inl e \<Rightarrow> Inl e
         | Inr x \<Rightarrow> decode_items (AList.update k x acc) items)
      else decode_items (AList.update k (PyStr v) acc) items)"

definition RedisTaskQueue_get_task_status ::
  "RedisTaskQueue \<Rightarrow> string \<Rightarrow> fault + (string \<times> pyval) list option" where
  "RedisTaskQueue_get_task_status q task_id =
     (case q of
        Degraded fb \<Rightarrow> Inr (TaskQueue_get_task_status fb task_id)
      | Live db queued running \<Rightarrow>
          (let data = hgetall db (task_key task_id)
           in if data = [] then Inr None
              else (case decode_items [] data of
                      Inl e \<Rightarrow> Inl e
                    | Inr d \<Rightarrow> Inr (Some d))))"

subsection \<open>Invariants of the in-memory queue\<close>

text \<open>
  \<open>func_of evs task_id\<close> is the callable submitted under an identifier in a list of steps.
  \<open>fields_ok\<close> relates the fields of a record to its status and to that callable;
  \<open>inv_rec\<close> says so for every record of the store, \<open>inv_job\<close> that the record of a job
  in a list of the pool, while it exists, has the given status.
\<close>

fun func_of :: "event list \<Rightarrow> string \<Rightarrow> outcome option" where
  "func_of [] task_id = None"
| "func_of (Submit tid t1 t2 func # evs) task_id =
     (if tid = task_id then Some func else func_of evs task_id)"
| "func_of (e # evs) task_id = func_of evs task_id"

definition fields_ok :: "outcome option \<Rightarrow> Task \<Rightarrow> bool" where
  "fields_ok f t =
     (case status t of
        PENDING \<Rightarrow> result t = PyNone \<and> error t = None
      | PROCESSING \<Rightarrow> result t = PyNone \<and> error t = None
      | COMPLETED \<Rightarrow> error t = None \<and> f = Some (Returned (result t))
      | FAILED \<Rightarrow>
          result t = PyNone \<and>
          (case error t of None \<Rightarrow> False | Some m \<Rightarrow> f = Some (RaisedException m)))"

definition inv_rec :: "event list \<Rightarrow> TaskQueue \<Rightarrow> bool" where
  "inv_rec evs q \<longleftrightarrow>
     (\<forall>tid t. map_of (tasks q) tid = Some t \<longrightarrow>
        id_field t = tid \<and> tid \<in> set (submitted evs) \<and> fields_ok (func_of evs tid) t)"

definition inv_job :: "event list \<Rightarrow> TaskQueue \<Rightarrow> TaskStatus \<Rightarrow> job list \<Rightarrow> bool" where
  "inv_job evs q s js \<longleftrightarrow>
     (\<forall>tid f. (tid, f) \<in> set js \<longrightarrow>
        func_of evs tid = Some f \<and>
        (\<forall>t. map_of (tasks q) tid = Some t \<longrightarrow> status t = s))"

definition invariant :: "event list \<Rightarrow> TaskQueue \<Rightarrow> bool" where
  "invariant evs q \<longleftrightarrow>
     distinct (map fst (executor_queue q @ executor_running q)) \<and>
     inv_rec evs q \<and>
     inv_job evs q PENDING (executor_queue q) \<and>
     inv_job evs q PROCESSING (executor_running q)"

section \<open>Properties\<close>

subsection \<open>Association lists and the steps of a run\<close>

lemma map_of_update_if:
  "map_of (AList.update k v al) k' = (if k' = k then Some v else map_of al k')"
  by (simp add: update_conv')

lemma submitted_append:
  "submitted (evs @ [e]) = submitted evs @ (case e of Submit tid t1 t2 f \<Rightarrow> [tid] | _ \<Rightarrow> [])"
  by (induction evs rule: submitted.induct) (auto split: event.splits)

lemma func_of_None: "func_of evs tid = None \<longleftrightarrow> tid \<notin> set (submitted evs)"
  by (induction evs tid rule: func_of.induct) auto

lemma func_of_append:
  "func_of (evs @ [e]) tid =
     (case func_of evs tid of
        Some f \<Rightarrow> Some f
      | None \<Rightarrow> (case e of Submit tid' t1 t2 f \<Rightarrow> if tid' = tid then Some f else None
                 | _ \<Rightarrow> None))"
  by (induction evs tid rule: func_of.induct) (auto split: event.splits option.splits)

lemma func_of_append_Some: "func_of evs tid = Some f \<Longrightarrow> func_of (evs @ [e]) tid = Some f"
  by (simp add: func_of_append)

lemma func_of_append_in:
  "tid \<in> set (submitted evs) \<Longrightarrow> func_of (evs @ [e]) tid = func_of evs tid"
  by (cases "func_of evs tid") (auto simp: func_of_None func_of_append)

lemma inv_rec_grow:
  "inv_rec evs q \<Longrightarrow> inv_rec (evs @ [e]) q"
  unfolding inv_rec_def by (auto simp: func_of_append_in submitted_append)

lemma inv_job_grow:
  "inv_job evs q s js \<Longrightarrow> inv_job (evs @ [e]) q s js"
  unfolding inv_job_def by (auto simp: func_of_append_Some)

lemma invariant_grow: "invariant evs q \<Longrightarrow> invariant (evs @ [e]) q"
  unfolding invariant_def by (simp add: inv_rec_grow inv_job_grow)

lemma inv_job_fresh:
  "inv_job evs q s js \<Longrightarrow> tid \<notin> set (submitted evs) \<Longrightarrow> tid \<notin> fst ` set js"
  unfolding inv_job_def by (force simp: func_of_None[symmetric])

lemma invariant_Submit:
  assumes inv: "invariant evs q" and fresh: "tid \<notin> set (submitted evs)"
  shows "invariant (evs @ [Submit tid t1 t2 f]) (exec q (Submit tid t1 t2 f))"
proof -
  let ?evs = "evs @ [Submit tid t1 t2 f]"
  let ?new = "\<lparr>id_field = tid, status = PENDING, created_at = t1, updated_at = t2,
               result = PyNone, error = None\<rparr>"
  let ?q = "q\<lparr>tasks := AList.update tid ?new (tasks q),
              executor_queue := executor_queue q @ [(tid, f)]\<rparr>"
  have q': "exec q (Submit tid t1 t2 f) = ?q"
    by (simp add: TaskQueue_submit_def)
  from inv have inv': "invariant ?evs q" by (rule invariant_grow)
  have fn: "func_of ?evs tid = Some f"
  proof -
    from fresh have "func_of evs tid = None" by (simp add: func_of_None)
    then show ?thesis by (simp add: func_of_append)
  qed
  have nq: "tid \<notin> fst ` set (executor_queue q)" and nr: "tid \<notin> fst ` set (executor_running q)"
    using inv fresh unfolding invariant_def by (blast dest: inv_job_fresh)+
  have nq': "\<And>f'. (tid, f') \<notin> set (executor_queue q)"
    and nr': "\<And>f'. (tid, f') \<notin> set (executor_running q)"
    using nq nr by force+
  have d: "distinct (map fst (executor_queue ?q @ executor_running ?q))"
    using inv nq nr unfolding invariant_def by auto
  have r: "inv_rec ?evs ?q"
    using inv' fn unfolding invariant_def inv_rec_def
    by (auto simp: map_of_update_if submitted_append fields_ok_def)
  have j1: "inv_job ?evs ?q PENDING (executor_queue ?q)"
    using inv' fn nq' unfolding invariant_def inv_job_def
    by (auto simp: map_of_update_if)
  have j2: "inv_job ?evs ?q PROCESSING (executor_running ?q)"
    using inv' nr' unfolding invariant_def inv_job_def
    by (auto simp: map_of_update_if) 
  show ?thesis unfolding q' invariant_def using d r j1 j2 by blast
qed


lemma map_of_foldl_delete:
  "map_of (foldl (\<lambda>d tid. AList.delete tid d) al ks) k =
     (if k \<in> set ks then None else map_of al k)"
  by (induction ks arbitrary: al) (auto simp: delete_conv')

lemma map_of_cleanup:
  "map_of (tasks (fst (cleanup_old_tasks q now max_age))) k =
     (if k \<in> set (to_remove (tasks q) now max_age) then None else map_of (tasks q) k)"
  by (simp add: cleanup_old_tasks_def Let_def map_of_foldl_delete)

lemma cleanup_executor:
  "executor_queue (fst (cleanup_old_tasks q now max_age)) = executor_queue q"
  "executor_running (fst (cleanup_old_tasks q now max_age)) = executor_running q"
  by (simp_all add: cleanup_old_tasks_def Let_def)

lemma invariant_Sweep:
  assumes inv: "invariant evs q"
  shows "invariant evs (exec q (Sweep now max_age))"
  using inv unfolding invariant_def inv_rec_def inv_job_def
  by (simp add: map_of_cleanup cleanup_executor split: if_splits) blast

lemma map_of_execute_task_run:
  "map_of (fst (execute_task_run ts tid f now)) k =
     (case map_of ts tid of
        None \<Rightarrow> map_of ts k
      | Some t \<Rightarrow>
          (case f of
             Returned v \<Rightarrow>
               if k = tid then Some (t\<lparr>status := COMPLETED, result := v, updated_at := now\<rparr>)
               else map_of ts k
           | RaisedException m \<Rightarrow>
               if k = tid then Some (t\<lparr>status := FAILED, error := Some m, updated_at := now\<rparr>)
               else map_of ts k
           | RaisedBaseException m \<Rightarrow> map_of ts k))"
  by (auto simp: execute_task_run_def set_completed_def set_failed_def map_of_update_if
           split: option.splits outcome.splits)

lemma invariant_WorkerFinish:
  assumes inv: "invariant evs q"
  shows "invariant evs (exec q (WorkerFinish tid now))"
proof (cases "map_of (executor_running q) tid")
  case None
  then show ?thesis using inv by simp
next
  case (Some f)
  let ?q = "q\<lparr>tasks := fst (execute_task_run (tasks q) tid f now),
              executor_running := AList.delete tid (executor_running q)\<rparr>"
  have q': "exec q (WorkerFinish tid now) = ?q" using Some by simp
  have mem: "(tid, f) \<in> set (executor_running q)" using Some by (rule map_of_SomeD)
  from inv have dist: "distinct (map fst (executor_queue q @ executor_running q))"
    and rec: "inv_rec evs q"
    and jq: "inv_job evs q PENDING (executor_queue q)"
    and jr: "inv_job evs q PROCESSING (executor_running q)"
    unfolding invariant_def by blast+
  from jr mem have fn: "func_of evs tid = Some f"
    and st: "\<And>t. map_of (tasks q) tid = Some t \<Longrightarrow> status t = PROCESSING"
    unfolding inv_job_def by blast+
  have nq: "\<And>f'. (tid, f') \<notin> set (executor_queue q)"
    using dist mem by force
  have d: "distinct (map fst (executor_queue ?q @ executor_running ?q))"
    using dist by (auto simp: delete_keys distinct_removeAll)
  have r: "inv_rec evs ?q"
    unfolding inv_rec_def
  proof (intro allI impI)
    fix k t'
    assume a: "map_of (tasks ?q) k = Some t'"
    show "id_field t' = k \<and> k \<in> set (submitted evs) \<and> fields_ok (func_of evs k) t'"
    proof (cases "map_of (tasks q) tid")
      case None
      with a rec show ?thesis unfolding inv_rec_def by (simp add: map_of_execute_task_run)
    next
      case (Some t)
      with rec have t: "id_field t = tid" "tid \<in> set (submitted evs)"
        "fields_ok (func_of evs tid) t"
        unfolding inv_rec_def by blast+
      from st Some have "status t = PROCESSING" by blast
      with t have clean: "result t = PyNone" "error t = None" by (simp_all add: fields_ok_def)
      show ?thesis
      proof (cases "k = tid")
        case False
        with a Some rec show ?thesis unfolding inv_rec_def
          by (simp add: map_of_execute_task_run split: outcome.splits)
      next
        case True
        with a Some t clean fn \<open>status t = PROCESSING\<close> show ?thesis
          by (auto simp: map_of_execute_task_run fields_ok_def split: outcome.splits)
      qed
    qed
  qed
  have other: "\<And>k. k \<noteq> tid \<Longrightarrow> map_of (tasks ?q) k = map_of (tasks q) k"
    by (simp add: map_of_execute_task_run split: option.splits outcome.splits)
  have j1: "inv_job evs ?q PENDING (executor_queue ?q)"
    unfolding inv_job_def
  proof (intro allI impI)
    fix k f'
    assume "(k, f') \<in> set (executor_queue ?q)"
    then have m: "(k, f') \<in> set (executor_queue q)" by simp
    with nq have "k \<noteq> tid" by auto
    with jq m other show "func_of evs k = Some f' \<and>
        (\<forall>t. map_of (tasks ?q) k = Some t \<longrightarrow> status t = PENDING)"
      unfolding inv_job_def by simp
  qed
  have j2: "inv_job evs ?q PROCESSING (executor_running ?q)"
    unfolding inv_job_def
  proof (intro allI impI)
    fix k f'
    assume "(k, f') \<in> set (executor_running ?q)"
    then have "k \<noteq> tid" and "(k, f') \<in> set (executor_running q)"
      by (auto simp: AList.delete_eq)
    with jr other show "func_of evs k = Some f' \<and>
        (\<forall>t. map_of (tasks ?q) k = Some t \<longrightarrow> status t = PROCESSING)"
      unfolding inv_job_def by simp
  qed
  show ?thesis unfolding q' invariant_def using d r j1 j2 by blast
qed


lemma invariant_WorkerBegin:
  assumes inv: "invariant evs q"
  shows "invariant evs (exec q (WorkerBegin now))"
proof (cases "executor_queue q")
  case Nil
  then show ?thesis using inv by simp
next
  case (Cons j rest)
  obtain tid f where j: "j = (tid, f)" by (cases j)
  from inv have dist: "distinct (map fst (executor_queue q @ executor_running q))"
    and rec: "inv_rec evs q"
    and jq: "inv_job evs q PENDING (executor_queue q)"
    and jr: "inv_job evs q PROCESSING (executor_running q)"
    unfolding invariant_def by blast+
  from dist Cons j have "tid \<notin> fst ` set rest" and "tid \<notin> fst ` set (executor_running q)"
    by auto
  then have nrest: "\<And>f'. (tid, f') \<notin> set rest"
    and nrun: "\<And>f'. (tid, f') \<notin> set (executor_running q)"
    by force+
  have jrest: "inv_job evs q PENDING rest"
    using jq Cons unfolding inv_job_def by simp
  from jq Cons j have fn: "func_of evs tid = Some f"
    and st: "\<And>t. map_of (tasks q) tid = Some t \<Longrightarrow> status t = PENDING"
    unfolding inv_job_def by auto
  show ?thesis
  proof (cases "map_of (tasks q) tid")
    case None
    then have q': "exec q (WorkerBegin now) = q\<lparr>executor_queue := rest\<rparr>"
      using Cons j by (simp add: execute_task_begin_def)
    show ?thesis unfolding q' invariant_def
      using dist rec jrest jr Cons by (simp add: inv_rec_def inv_job_def)
  next
    case (Some t)
    let ?t = "t\<lparr>status := PROCESSING, updated_at := now\<rparr>"
    let ?q = "q\<lparr>tasks := AList.update tid ?t (tasks q), executor_queue := rest,
                executor_running := executor_running q @ [(tid, f)]\<rparr>"
    have q': "exec q (WorkerBegin now) = ?q"
      using Cons j Some by (simp add: execute_task_begin_def)
    from rec Some have t: "id_field t = tid" "tid \<in> set (submitted evs)"
      "fields_ok (func_of evs tid) t"
      unfolding inv_rec_def by blast+
    from st Some have "status t = PENDING" by blast
    with t have ok: "fields_ok (func_of evs tid) ?t" by (simp add: fields_ok_def)
    have d: "distinct (map fst (executor_queue ?q @ executor_running ?q))"
      using dist Cons j by auto
    have r: "inv_rec evs ?q"
      using rec t ok unfolding inv_rec_def by (simp add: map_of_update_if)
    have j1: "inv_job evs ?q PENDING (executor_queue ?q)"
      using jrest nrest unfolding inv_job_def by (auto simp: map_of_update_if)
    have j2: "inv_job evs ?q PROCESSING (executor_running ?q)"
      using jr nrun fn unfolding inv_job_def by (auto simp: map_of_update_if)
    show ?thesis unfolding q' invariant_def using d r j1 j2 by blast
  qed
qed

lemma invariant_exec:
  assumes "invariant evs q" and "distinct (submitted (evs @ [e]))"
  shows "invariant (evs @ [e]) (exec q e)"
proof (cases e)
  case (Submit tid t1 t2 f)
  with assms show ?thesis by (simp add: submitted_append invariant_Submit del: exec.simps)
next
  case (WorkerBegin now)
  with assms show ?thesis by (simp add: invariant_grow invariant_WorkerBegin del: exec.simps)
next
  case (WorkerFinish tid now)
  with assms show ?thesis by (simp add: invariant_grow invariant_WorkerFinish del: exec.simps)
next
  case (Sweep now max_age)
  with assms show ?thesis by (simp add: invariant_grow invariant_Sweep del: exec.simps)
qed

lemma run_snoc: "run q (evs @ [e]) = exec (run q evs) e"
  by (simp add: run_def)

lemma distinct_submitted_butlast:
  "distinct (submitted (evs @ [e])) \<Longrightarrow> distinct (submitted evs)"
  by (simp add: submitted_append split: event.splits)

lemma invariant_run:
  "distinct (submitted evs) \<Longrightarrow> invariant evs (run empty_queue evs)"
proof (induction evs rule: rev_induct)
  case Nil
  show ?case by (simp add: run_def empty_queue_def invariant_def inv_rec_def inv_job_def)
next
  case (snoc e evs)
  from snoc.prems have "distinct (submitted evs)" by (rule distinct_submitted_butlast)
  then have "invariant evs (run empty_queue evs)" by (rule snoc.IH)
  then have "invariant (evs @ [e]) (exec (run empty_queue evs) e)"
    using snoc.prems by (rule invariant_exec)
  then show ?case by (simp only: run_snoc)
qed

subsection \<open>The execution wrapper on one record\<close>

lemma execute_task_run_returned:
  "map_of ts task_id = Some t \<Longrightarrow>
   execute_task_run ts task_id (Returned v) now =
     (AList.update task_id (t\<lparr>status := COMPLETED, result := v, updated_at := now\<rparr>) ts, None)"
  by (simp add: execute_task_run_def set_completed_def)

lemma execute_task_run_raised:
  "map_of ts task_id = Some t \<Longrightarrow>
   execute_task_run ts task_id (RaisedException msg) now =
     (AList.update task_id (t\<lparr>status := FAILED, error := Some msg, updated_at := now\<rparr>) ts, None)"
  by (simp add: execute_task_run_def set_failed_def)

lemma execute_task_run_missing:
  "map_of ts task_id = None \<Longrightarrow>
   execute_task_run ts task_id (Returned v) now = (ts, Some (KeyError task_id)) \<and>
   execute_task_run ts task_id (RaisedException msg) now = (ts, Some (KeyError task_id))"
  by (simp add: execute_task_run_def set_completed_def set_failed_def)

lemma execute_task_present:
  "map_of (tasks q) task_id = Some t \<Longrightarrow>
   execute_task q task_id func t1 t2 =
     (case execute_task_run
             (AList.update task_id (t\<lparr>status := PROCESSING, updated_at := t1\<rparr>) (tasks q))
             task_id func t2 of
        (ts', r) \<Rightarrow> (q\<lparr>tasks := ts'\<rparr>, r))"
  by (simp add: execute_task_def execute_task_begin_def)

lemma execute_task_missing:
  "map_of (tasks q) task_id = None \<Longrightarrow>
   execute_task q task_id func t1 t2 = (q, Some (KeyError task_id))"
  by (simp add: execute_task_def execute_task_begin_def)

text \<open>
  C3. A record that is in the store with no error, as \<^verbatim>\<open>submit\<close> creates it, and whose
  callable returns \<open>v\<close>: the wrapper returns normally and leaves the record \<^verbatim>\<open>COMPLETED\<close>
  with \<open>result = v\<close> and no error. The same holds for the \<^verbatim>\<open>try\<close> statement alone, on any
  store that holds the record when the callable has returned.
\<close>

theorem returned_value_completes:
  assumes "get_task q task_id = Some t" and "error t = None"
  shows "snd (execute_task q task_id (Returned v) t1 t2) = None \<and>
         map_option (\<lambda>t'. (status t', result t', error t'))
           (get_task (fst (execute_task q task_id (Returned v) t1 t2)) task_id) =
         Some (COMPLETED, v, None) \<and>
         snd (execute_task_run (tasks q) task_id (Returned v) t2) = None \<and>
         map_option (\<lambda>t'. (status t', result t', error t'))
           (map_of (fst (execute_task_run (tasks q) task_id (Returned v) t2)) task_id) =
         Some (COMPLETED, v, None)"
  using assms
  by (simp add: get_task_def execute_task_present execute_task_run_returned map_of_update_if)

theorem returned_value_completes_witness:
  "get_task (fst (TaskQueue_submit empty_queue ''a'' 10 11 (Returned (PyDict [(''n'', PyInt 42)])))) ''a''
     = Some \<lparr>id_field = ''a'', status = PENDING, created_at = 10, updated_at = 11,
             result = PyNone, error = None\<rparr> \<and>
   map_option (\<lambda>t'. (status t', result t', error t'))
     (get_task (fst (execute_task
         (fst (TaskQueue_submit empty_queue ''a'' 10 11 (Returned (PyDict [(''n'', PyInt 42)]))))
         ''a'' (Returned (PyDict [(''n'', PyInt 42)])) 12 13)) ''a'') =
   Some (COMPLETED, PyDict [(''n'', PyInt 42)], None)"
proof -
  let ?q = "fst (TaskQueue_submit empty_queue ''a'' 10 11 (Returned (PyDict [(''n'', PyInt 42)])))"
  let ?t = "\<lparr>id_field = ''a'', status = PENDING, created_at = 10, updated_at = 11,
             result = PyNone, error = None\<rparr>"
  have h: "get_task ?q ''a'' = Some ?t"
    by (simp add: TaskQueue_submit_def empty_queue_def get_task_def)
  have e: "error ?t = None" by simp
  from returned_value_completes [OF h e, of "PyDict [(''n'', PyInt 42)]" 12 13] h
  show ?thesis by blast
qed

lemma execute_task_run_base:
  "execute_task_run ts task_id (RaisedBaseException msg) now = (ts, Some (Uncaught msg))"
  by (simp add: execute_task_run_def)

text \<open>
  C1, as stated, fails. A callable that raises an exception without a message
  (\<^verbatim>\<open>raise ValueError()\<close>, a failing \<^verbatim>\<open>assert\<close>) leaves \<^verbatim>\<open>error\<close> equal to \<^verbatim>\<open>str(e)\<close>, the
  empty text. A callable that raises outside \<^verbatim>\<open>Exception\<close> (\<^verbatim>\<open>SystemExit\<close>) is not caught:
  the exception leaves the wrapper and the record stays \<^verbatim>\<open>PROCESSING\<close>.
\<close>

theorem failed_error_nonempty_counterexample:
  "map_option (\<lambda>t'. (status t', error t'))
     (get_task (fst (execute_task
         (fst (TaskQueue_submit empty_queue ''a'' 1 1 (RaisedException '''')))
         ''a'' (RaisedException '''') 2 3)) ''a'') = Some (FAILED, Some '''') \<and>
   snd (execute_task
         (fst (TaskQueue_submit empty_queue ''a'' 1 1 (RaisedBaseException ''exit'')))
         ''a'' (RaisedBaseException ''exit'') 2 3) = Some (Uncaught ''exit'') \<and>
   map_option status
     (get_task (fst (execute_task
         (fst (TaskQueue_submit empty_queue ''a'' 1 1 (RaisedBaseException ''exit'')))
         ''a'' (RaisedBaseException ''exit'') 2 3)) ''a'') = Some PROCESSING"
  by (simp add: TaskQueue_submit_def empty_queue_def get_task_def execute_task_def
        execute_task_begin_def execute_task_run_def set_failed_def)

text \<open>
  C1, amended. A record that is in the store with no result, as \<^verbatim>\<open>submit\<close> creates it, and
  whose callable raises an exception derived from \<^verbatim>\<open>Exception\<close> with \<^verbatim>\<open>str(e) = msg\<close>: the
  wrapper returns normally and leaves the record \<^verbatim>\<open>FAILED\<close> with \<open>error = Some msg\<close> (set, and
  empty when the exception has no message) and no result. The same holds for the \<^verbatim>\<open>try\<close>
  statement alone, on any store that holds the record when the callable has raised.
\<close>

theorem raised_exception_fails:
  assumes "get_task q task_id = Some t" and "result t = PyNone"
  shows "snd (execute_task q task_id (RaisedException msg) t1 t2) = None \<and>
         map_option (\<lambda>t'. (status t', error t', result t'))
           (get_task (fst (execute_task q task_id (RaisedException msg) t1 t2)) task_id) =
         Some (FAILED, Some msg, PyNone) \<and>
         snd (execute_task_run (tasks q) task_id (RaisedException msg) t2) = None \<and>
         map_option (\<lambda>t'. (status t', error t', result t'))
           (map_of (fst (execute_task_run (tasks q) task_id (RaisedException msg) t2)) task_id) =
         Some (FAILED, Some msg, PyNone)"
  using assms
  by (simp add: get_task_def execute_task_present execute_task_run_raised map_of_update_if)

theorem raised_exception_fails_witness:
  "get_task (fst (TaskQueue_submit empty_queue ''a'' 10 11 (RaisedException ''boom''))) ''a''
     = Some \<lparr>id_field = ''a'', status = PENDING, created_at = 10, updated_at = 11,
             result = PyNone, error = None\<rparr> \<and>
   snd (execute_task (fst (TaskQueue_submit empty_queue ''a'' 10 11 (RaisedException ''boom'')))
          ''a'' (RaisedException ''boom'') 12 13) = None \<and>
   map_option (\<lambda>t'. (status t', error t', result t'))
     (get_task (fst (execute_task
         (fst (TaskQueue_submit empty_queue ''a'' 10 11 (RaisedException ''boom'')))
         ''a'' (RaisedException ''boom'') 12 13)) ''a'') =
   Some (FAILED, Some ''boom'', PyNone)"
proof -
  let ?q = "fst (TaskQueue_submit empty_queue ''a'' 10 11 (RaisedException ''boom''))"
  let ?t = "\<lparr>id_field = ''a'', status = PENDING, created_at = 10, updated_at = 11,
             result = PyNone, error = None\<rparr>"
  have h: "get_task ?q ''a'' = Some ?t"
    by (simp add: TaskQueue_submit_def empty_queue_def get_task_def)
  have e: "result ?t = PyNone" by simp
  from raised_exception_fails [OF h e, of "''boom''" 12 13] h
  show ?thesis by blast
qed

text \<open>
  C10. The first block of the wrapper raises \<^verbatim>\<open>KeyError\<close> exactly when the record is not in
  the store, and the blocks of the \<^verbatim>\<open>try\<close> statement stay without an exception exactly when
  it is. When the record was removed before the worker starts, the wrapper raises
  \<^verbatim>\<open>KeyError\<close> and changes nothing; when it was removed while the callable ran, the block
  of the normal return and the block of the handler raise \<^verbatim>\<open>KeyError\<close>, which leaves the
  wrapper, and the store is left as it was: no outcome is recorded.
\<close>

theorem missing_record_faults:
  "(execute_task_begin ts task_id now = Inl (KeyError task_id)) = (map_of ts task_id = None) \<and>
   (snd (execute_task_run ts task_id (Returned v) now) = None) = (map_of ts task_id \<noteq> None) \<and>
   (snd (execute_task_run ts task_id (RaisedException msg) now) = None)
      = (map_of ts task_id \<noteq> None) \<and>
   (map_of ts task_id = None \<longrightarrow>
      execute_task_run ts task_id (Returned v) now = (ts, Some (KeyError task_id)) \<and>
      execute_task_run ts task_id (RaisedException msg) now = (ts, Some (KeyError task_id))) \<and>
   (get_task q task_id = None \<longrightarrow>
      execute_task q task_id func t1 t2 = (q, Some (KeyError task_id)))"
  by (auto simp: execute_task_begin_def execute_task_run_def set_completed_def set_failed_def
        get_task_def execute_task_missing split: option.splits)

theorem missing_record_faults_witness:
  "get_task (run empty_queue [Submit ''a'' 1 1 (Returned PyNone), Sweep 5 2]) ''a'' = None \<and>
   execute_task (run empty_queue [Submit ''a'' 1 1 (Returned PyNone), Sweep 5 2])
      ''a'' (Returned PyNone) 6 7
     = (run empty_queue [Submit ''a'' 1 1 (Returned PyNone), Sweep 5 2], Some (KeyError ''a'')) \<and>
   map_of (tasks (run empty_queue
      [Submit ''a'' 1 1 (Returned PyNone), WorkerBegin 2, Sweep 5 2])) ''a'' = None \<and>
   execute_task_run (tasks (run empty_queue
      [Submit ''a'' 1 1 (Returned PyNone), WorkerBegin 2, Sweep 5 2])) ''a'' (Returned PyNone) 6
     = (tasks (run empty_queue [Submit ''a'' 1 1 (Returned PyNone), WorkerBegin 2, Sweep 5 2]),
        Some (KeyError ''a''))"
proof -
  let ?q = "run empty_queue [Submit ''a'' 1 1 (Returned PyNone), Sweep 5 2]"
  let ?ts = "tasks (run empty_queue [Submit ''a'' 1 1 (Returned PyNone), WorkerBegin 2, Sweep 5 2])"
  have h1: "get_task ?q ''a'' = None"
    by (simp add: run_def empty_queue_def TaskQueue_submit_def cleanup_old_tasks_def
          to_remove_def get_task_def)
  have h2: "map_of ?ts ''a'' = None"
    by (simp add: run_def empty_queue_def TaskQueue_submit_def cleanup_old_tasks_def
          to_remove_def execute_task_begin_def)
  from missing_record_faults [of ?ts "''a''" 6 PyNone "''''" ?q "Returned PyNone" 6 7] h1 h2
  show ?thesis by blast
qed

subsection \<open>The retention sweep\<close>

lemma delete_filter: "AList.delete k al = filter (\<lambda>p. fst p \<noteq> k) al"
  by (induction al) auto

lemma foldl_delete_filter:
  "foldl (\<lambda>d tid. AList.delete tid d) al ks = filter (\<lambda>p. fst p \<notin> set ks) al"
proof (induction ks arbitrary: al)
  case Nil
  show ?case by simp
next
  case (Cons k ks)
  have "foldl (\<lambda>d tid. AList.delete tid d) al (k # ks)
        = foldl (\<lambda>d tid. AList.delete tid d) (AList.delete k al) ks"
    by simp
  also have "\<dots> = filter (\<lambda>p. fst p \<notin> set ks) (AList.delete k al)"
    by (rule Cons)
  also have "\<dots> = filter (\<lambda>p. fst p \<notin> set ks) (filter (\<lambda>p. fst p \<noteq> k) al)"
    by (simp only: delete_filter)
  also have "\<dots> = filter (\<lambda>p. fst p \<notin> set (k # ks)) al"
    by (induction al) auto
  finally show ?case .
qed

lemma to_remove_iff:
  assumes "distinct (map fst ts)" and "(k, t) \<in> set ts"
  shows "k \<in> set (to_remove ts now max_age) \<longleftrightarrow> now - created_at t > real_of_int max_age"
proof
  assume "k \<in> set (to_remove ts now max_age)"
  then obtain t' where m: "(k, t') \<in> set ts" and old: "now - created_at t' > real_of_int max_age"
    by (auto simp: to_remove_def)
  from assms m have "t' = t" by (meson eq_key_imp_eq_value)
  with old show "now - created_at t > real_of_int max_age" by simp
next
  assume "now - created_at t > real_of_int max_age"
  with assms(2) show "k \<in> set (to_remove ts now max_age)"
    by (force simp: to_remove_def)
qed

lemma cleanup_tasks:
  assumes "distinct (map fst (tasks q))"
  shows "tasks (fst (cleanup_old_tasks q now max_age)) =
           filter (\<lambda>(tid, task). \<not> now - created_at task > real_of_int max_age) (tasks q)"
proof -
  have "filter (\<lambda>p. fst p \<notin> set (to_remove (tasks q) now max_age)) (tasks q)
        = filter (\<lambda>(tid, task). \<not> now - created_at task > real_of_int max_age) (tasks q)"
    by (rule filter_cong) (auto simp: to_remove_iff [OF assms])
  then show ?thesis
    by (simp add: cleanup_old_tasks_def Let_def foldl_delete_filter)
qed

text \<open>
  C4, as stated, fails. With one record created at time 5 and one at time 10, the sweep at
  time 10 with \<^verbatim>\<open>max_age = 0\<close> removes one record and logs the count 1, but the value it
  returns is \<^verbatim>\<open>None\<close>; and the record created at the very reading of the sweep is not older
  than \<^verbatim>\<open>max_age\<close>, so its status is still found.
\<close>

theorem cleanup_returns_count_counterexample:
  "snd (snd (cleanup_old_tasks
      (run empty_queue [Submit ''a'' 5 5 (Returned PyNone), Submit ''b'' 10 10 (Returned PyNone)])
      10 0)) = PyNone \<and>
   fst (snd (cleanup_old_tasks
      (run empty_queue [Submit ''a'' 5 5 (Returned PyNone), Submit ''b'' 10 10 (Returned PyNone)])
      10 0)) = 1 \<and>
   TaskQueue_get_task_status (fst (cleanup_old_tasks
      (run empty_queue [Submit ''a'' 5 5 (Returned PyNone), Submit ''b'' 10 10 (Returned PyNone)])
      10 0)) ''b'' =
     Some (to_dict \<lparr>id_field = ''b'', status = PENDING, created_at = 10, updated_at = 10,
                    result = PyNone, error = None\<rparr>)"
  by (simp add: run_def empty_queue_def TaskQueue_submit_def cleanup_old_tasks_def
        to_remove_def TaskQueue_get_task_status_def get_task_def)

text \<open>
  C4, amended. On a store with one record per identifier, the sweep keeps, in order,
  exactly the records whose age \<open>current_time - created_at\<close> is not greater than
  \<^verbatim>\<open>max_age\<close>, whatever their status: every older record is removed and no other. It
  returns \<^verbatim>\<open>None\<close>; the number of records removed goes to the log line. After a sweep with
  \<^verbatim>\<open>max_age = 0\<close> the status of every record created before the reading of the sweep is
  not found.
\<close>

theorem cleanup_removes_old:
  assumes "distinct (map fst (tasks q))"
  shows "tasks (fst (cleanup_old_tasks q now max_age)) =
           filter (\<lambda>(tid, task). \<not> now - created_at task > real_of_int max_age) (tasks q) \<and>
         (\<forall>tid. get_task (fst (cleanup_old_tasks q now max_age)) tid =
            (case get_task q tid of
               None \<Rightarrow> None
             | Some t \<Rightarrow> if now - created_at t > real_of_int max_age then None else Some t)) \<and>
         snd (snd (cleanup_old_tasks q now max_age)) = PyNone \<and>
         fst (snd (cleanup_old_tasks q now max_age)) + 
           length (tasks (fst (cleanup_old_tasks q now max_age))) = length (tasks q) \<and>
         (\<forall>tid t. get_task q tid = Some t \<and> created_at t < now \<longrightarrow>
            TaskQueue_get_task_status (fst (cleanup_old_tasks q now 0)) tid = None)"
proof -
  let ?old = "\<lambda>t. now - created_at t > real_of_int max_age"
  have look: "get_task (fst (cleanup_old_tasks q now age)) tid =
        (case get_task q tid of
           None \<Rightarrow> None
         | Some t \<Rightarrow> if now - created_at t > real_of_int age then None else Some t)" for tid age
  proof (cases "get_task q tid")
    case None
    then show ?thesis by (simp add: get_task_def map_of_cleanup)
  next
    case (Some t)
    then have "(tid, t) \<in> set (tasks q)" by (simp add: get_task_def map_of_SomeD)
    from to_remove_iff [OF assms this] Some show ?thesis
      by (simp add: get_task_def map_of_cleanup)
  qed
  have cnt: "fst (snd (cleanup_old_tasks q now max_age)) =
        length (filter (\<lambda>(tid, task). ?old task) (tasks q))"
    by (simp add: cleanup_old_tasks_def Let_def to_remove_def)
  have len: "fst (snd (cleanup_old_tasks q now max_age)) +
        length (tasks (fst (cleanup_old_tasks q now max_age))) = length (tasks q)"
    unfolding cnt cleanup_tasks [OF assms]
    using sum_length_filter_compl [of "\<lambda>(tid, task). ?old task" "tasks q"]
    by (simp add: case_prod_unfold)
  have zero: "TaskQueue_get_task_status (fst (cleanup_old_tasks q now 0)) tid = None"
    if "get_task q tid = Some t" and "created_at t < now" for tid t
    using that by (simp add: TaskQueue_get_task_status_def look)
  show ?thesis
    using cleanup_tasks [OF assms] look len zero
    by (simp add: cleanup_old_tasks_def Let_def)
qed

theorem cleanup_removes_old_witness:
  "distinct (map fst (tasks (run empty_queue
      [Submit ''a'' 5 5 (Returned PyNone), Submit ''b'' 10 10 (Returned PyNone)]))) \<and>
   tasks (fst (cleanup_old_tasks (run empty_queue
      [Submit ''a'' 5 5 (Returned PyNone), Submit ''b'' 10 10 (Returned PyNone)]) 10 0)) =
     [(''b'', \<lparr>id_field = ''b'', status = PENDING, created_at = 10, updated_at = 10,
               result = PyNone, error = None\<rparr>)] \<and>
   get_task (run empty_queue
      [Submit ''a'' 5 5 (Returned PyNone), Submit ''b'' 10 10 (Returned PyNone)]) ''a'' =
     Some \<lparr>id_field = ''a'', status = PENDING, created_at = 5, updated_at = 5,
           result = PyNone, error = None\<rparr> \<and>
   TaskQueue_get_task_status (fst (cleanup_old_tasks (run empty_queue
      [Submit ''a'' 5 5 (Returned PyNone), Submit ''b'' 10 10 (Returned PyNone)]) 10 0)) ''a''
     = None"
proof -
  let ?q = "run empty_queue
      [Submit ''a'' 5 5 (Returned PyNone), Submit ''b'' 10 10 (Returned PyNone)]"
  let ?a = "\<lparr>id_field = ''a'', status = PENDING, created_at = 5, updated_at = 5,
           result = PyNone, error = None\<rparr>"
  have ts: "tasks ?q = [(''a'', ?a),
      (''b'', \<lparr>id_field = ''b'', status = PENDING, created_at = 10, updated_at = 10,
               result = PyNone, error = None\<rparr>)]"
    by (simp add: run_def empty_queue_def TaskQueue_submit_def)
  have d: "distinct (map fst (tasks ?q))" by (simp add: ts)
  have g: "get_task ?q ''a'' = Some ?a" by (simp add: get_task_def ts)
  from cleanup_removes_old [OF d, of 10 0] g d
  show ?thesis by (simp add: ts)
qed

subsection \<open>Status lookup and the shared-store backend\<close>

lemma json_loads_None: "json_loads ''None'' = Inl JSONDecodeError"
  by code_simp

lemma decode_items_None:
  "map_of h ''result'' = Some ''None'' \<Longrightarrow> decode_items acc h = Inl JSONDecodeError"
proof (induction h arbitrary: acc)
  case Nil
  then show ?case by simp
next
  case (Cons p h)
  obtain k v where p: "p = (k, v)" by (cases p)
  show ?case
  proof (cases "k = ''result''")
    case True
    with Cons.prems p have "v = ''None''" by simp
    with True p show ?thesis by (simp add: json_loads_None)
  next
    case False
    with Cons.prems p have "map_of h ''result'' = Some ''None''" by simp
    with False p Cons.IH show ?thesis by simp
  qed
qed

lemma hgetall_hset_mapping:
  "hgetall (hset_mapping db key m) key = foldl (\<lambda>h (f, v). AList.update f v h) (hgetall db key) m"
  by (simp add: hgetall_def hset_mapping_def)

lemma hgetall_hset:
  "hgetall (hset db key f v) key = AList.update f v (hgetall db key)"
  by (simp add: hset_def hgetall_hset_mapping)

lemma get_task_status_result_None:
  assumes "map_of (hgetall db (task_key task_id)) ''result'' = Some ''None''"
  shows "RedisTaskQueue_get_task_status (Live db queued running) task_id = Inl JSONDecodeError"
proof -
  from assms have "hgetall db (task_key task_id) \<noteq> []" by auto
  with assms show ?thesis
    by (simp add: RedisTaskQueue_get_task_status_def Let_def decode_items_None)
qed


lemma exec_no_creation:
  assumes "map_of (tasks q) k = None" and "\<And>t1 t2 f. e \<noteq> Submit k t1 t2 f"
  shows "map_of (tasks (exec q e)) k = None"
proof (cases e)
  case (Submit tid t1 t2 f)
  with assms show ?thesis by (auto simp: TaskQueue_submit_def map_of_update_if)
next
  case (WorkerBegin now)
  with assms show ?thesis
    by (auto simp: execute_task_begin_def map_of_update_if
          split: list.splits option.splits)
next
  case (WorkerFinish tid now)
  with assms show ?thesis
    by (auto simp: map_of_execute_task_run split: option.splits outcome.splits)
next
  case (Sweep now max_age)
  with assms show ?thesis by (simp add: map_of_cleanup)
qed

lemma never_submitted_absent:
  "k \<notin> set (submitted evs) \<Longrightarrow> map_of (tasks (run empty_queue evs)) k = None"
proof (induction evs rule: rev_induct)
  case Nil
  show ?case by (simp add: run_def empty_queue_def)
next
  case (snoc e evs)
  from snoc.prems have n: "k \<notin> set (submitted evs)" and ne: "\<And>t1 t2 f. e \<noteq> Submit k t1 t2 f"
    by (auto simp: submitted_append)
  from snoc.IH [OF n] ne show ?case
    by (simp only: run_snoc) (rule exec_no_creation)
qed

text \<open>
  C5. The status lookup of the in-memory store gives \<^verbatim>\<open>None\<close> exactly when the record is
  not in the store: for an identifier that no step of a run has issued, and for one that the
  sweep has just removed. The lookup of the shared-store backend gives \<^verbatim>\<open>None\<close>, and does
  not raise, when the external store has no hash under the key of the identifier, and when
  it runs on the fallback store and that store has no record.
\<close>

theorem lookup_miss_not_found:
  "(TaskQueue_get_task_status q task_id = None) = (get_task q task_id = None) \<and>
   (task_id \<notin> set (submitted evs) \<longrightarrow>
      TaskQueue_get_task_status (run empty_queue evs) task_id = None) \<and>
   (task_id \<in> set (to_remove (tasks q) now max_age) \<longrightarrow>
      TaskQueue_get_task_status (fst (cleanup_old_tasks q now max_age)) task_id = None) \<and>
   (db (task_key task_id) = None \<longrightarrow>
      RedisTaskQueue_get_task_status (Live db queued running) task_id = Inr None) \<and>
   (get_task fb task_id = None \<longrightarrow>
      RedisTaskQueue_get_task_status (Degraded fb) task_id = Inr None)"
  by (auto simp: TaskQueue_get_task_status_def get_task_def never_submitted_absent
        map_of_cleanup RedisTaskQueue_get_task_status_def hgetall_def
        split: option.splits)

theorem lookup_miss_not_found_witness:
  "''zz'' \<notin> set (submitted [Submit ''a'' 1 1 (Returned PyNone), WorkerBegin 2]) \<and>
   TaskQueue_get_task_status
     (run empty_queue [Submit ''a'' 1 1 (Returned PyNone), WorkerBegin 2]) ''zz'' = None \<and>
   ''a'' \<in> set (to_remove
     (tasks (run empty_queue [Submit ''a'' 1 1 (Returned PyNone), WorkerBegin 2])) 5 0) \<and>
   TaskQueue_get_task_status (fst (cleanup_old_tasks
     (run empty_queue [Submit ''a'' 1 1 (Returned PyNone), WorkerBegin 2]) 5 0)) ''a'' = None \<and>
   (Map.empty :: redis_db) (task_key ''a'') = None \<and>
   RedisTaskQueue_get_task_status (Live Map.empty [] []) ''a'' = Inr None \<and>
   get_task empty_queue ''a'' = None \<and>
   RedisTaskQueue_get_task_status (Degraded empty_queue) ''a'' = Inr None"
proof -
  let ?evs = "[Submit ''a'' 1 1 (Returned PyNone), WorkerBegin 2]"
  have h1: "''zz'' \<notin> set (submitted ?evs)" by simp
  have h2: "''a'' \<in> set (to_remove (tasks (run empty_queue ?evs)) 5 0)"
    by (simp add: run_def empty_queue_def TaskQueue_submit_def execute_task_begin_def
          to_remove_def)
  have h3: "(Map.empty :: redis_db) (task_key ''a'') = None" by simp
  have h4: "get_task empty_queue ''a'' = None" by (simp add: get_task_def empty_queue_def)
  from lookup_miss_not_found [of "run empty_queue ?evs" "''zz''" ?evs 5 0 Map.empty "[]" "[]"
      empty_queue] h1
  have a: "TaskQueue_get_task_status (run empty_queue ?evs) ''zz'' = None" by blast
  from lookup_miss_not_found [of "run empty_queue ?evs" "''a''" ?evs 5 0 Map.empty "[]" "[]"
      empty_queue] h2 h3 h4
  have b: "TaskQueue_get_task_status (fst (cleanup_old_tasks (run empty_queue ?evs) 5 0)) ''a''
             = None"
    and c: "RedisTaskQueue_get_task_status (Live Map.empty [] []) ''a'' = Inr None"
    and d: "RedisTaskQueue_get_task_status (Degraded empty_queue) ''a'' = Inr None"
    by blast+
  from h1 h2 h3 h4 a b c d show ?thesis by blast
qed

text \<open>
  C6. With a valid pool size, constructing the backend when the external store cannot be
  reached does not raise: the object holds no client and a fresh \<^verbatim>\<open>TaskQueue\<close>. From then on
  \<^verbatim>\<open>submit\<close> is \<^verbatim>\<open>TaskQueue.submit\<close> on that queue, with the same identifier given back and
  the object still without a client, and \<^verbatim>\<open>get_task_status\<close> is that of the queue, whatever
  state the queue is in.
\<close>

theorem unreachable_store_falls_back:
  assumes "0 < max_workers"
  shows "RedisTaskQueue_init None max_workers = Inr (Degraded empty_queue) \<and>
         TaskQueue_init max_workers = Inr empty_queue \<and>
         RedisTaskQueue_submit str_float (Degraded fb) task_id t1 t2 func =
           (Degraded (fst (TaskQueue_submit fb task_id t1 t2 func)),
            snd (TaskQueue_submit fb task_id t1 t2 func)) \<and>
         RedisTaskQueue_get_task_status (Degraded fb) task_id =
           Inr (TaskQueue_get_task_status fb task_id)"
  using assms
  by (simp add: RedisTaskQueue_init_def TaskQueue_init_def empty_queue_def
        RedisTaskQueue_submit_def RedisTaskQueue_get_task_status_def split: prod.splits)

theorem unreachable_store_falls_back_witness:
  "(0::int) < 4 \<and>
   RedisTaskQueue_init None 4 = Inr (Degraded empty_queue) \<and>
   RedisTaskQueue_get_task_status
     (fst (RedisTaskQueue_submit (\<lambda>r. ''0'') (Degraded empty_queue) ''a'' 1 2 (Returned PyNone)))
     ''a'' =
   Inr (Some (to_dict \<lparr>id_field = ''a'', status = PENDING, created_at = 1, updated_at = 2,
                       result = PyNone, error = None\<rparr>))"
proof -
  have h: "(0::int) < 4" by simp
  from unreachable_store_falls_back [OF h, of "\<lambda>r. ''0''" empty_queue "''a''" 1 2
      "Returned PyNone"]
    unreachable_store_falls_back [OF h, of "\<lambda>r. ''0''"
      "fst (TaskQueue_submit empty_queue ''a'' 1 2 (Returned PyNone))" "''a''" 1 2
      "Returned PyNone"]
  show ?thesis
    by (simp add: TaskQueue_submit_def empty_queue_def TaskQueue_get_task_status_def
          get_task_def)
qed

text \<open>
  C7 fails on the code. \<^verbatim>\<open>submit\<close> writes \<^verbatim>\<open>str(None)\<close>, the text \<^verbatim>\<open>None\<close>, into the field
  \<^verbatim>\<open>result\<close>, and the wrapper replaces it only on a normal return. \<^verbatim>\<open>get_task_status\<close> passes
  every non-empty \<^verbatim>\<open>result\<close> field to \<^verbatim>\<open>json.loads\<close>, which rejects that text: with a
  reachable store the lookup of a task raises \<^verbatim>\<open>JSONDecodeError\<close> right after
  \<^verbatim>\<open>submit\<close>, after the worker has set \<^verbatim>\<open>processing\<close>, and after a failure was recorded.
\<close>

theorem redis_status_raises_before_completion:
  "RedisTaskQueue_get_task_status
     (fst (RedisTaskQueue_submit str_float (Live db queued running) task_id t1 t2 func)) task_id
     = Inl JSONDecodeError \<and>
   (case RedisTaskQueue_submit str_float (Live db queued running) task_id t1 t2 func of
      (Live db1 queued1 running1, r) \<Rightarrow>
        RedisTaskQueue_get_task_status
          (Live (redis_execute_begin str_float db1 task_id t3) queued1 running1) task_id
          = Inl JSONDecodeError \<and>
        RedisTaskQueue_get_task_status
          (Live (fst (redis_execute_run str_float json_dumps
                   (redis_execute_begin str_float db1 task_id t3) task_id
                   (RaisedException msg) t4)) queued1 running1) task_id
          = Inl JSONDecodeError
    | (Degraded fb, r) \<Rightarrow> False)"
proof -
  let ?m = "[(''id'', task_id), (''status'', TaskStatus_value PENDING),
             (''created_at'', str_float t1), (''updated_at'', str_float t2),
             (''result'', ''None''), (''error'', ''None'')]"
  let ?db1 = "hset_mapping db (task_key task_id) ?m"
  have s: "RedisTaskQueue_submit str_float (Live db queued running) task_id t1 t2 func
           = (Live ?db1 (queued @ [(task_id, func)]) running, task_id)"
    by (simp add: RedisTaskQueue_submit_def)
  have r1: "map_of (hgetall ?db1 (task_key task_id)) ''result'' = Some ''None''"
    by (simp add: hgetall_hset_mapping map_of_update_if)
  have r2: "map_of (hgetall (redis_execute_begin str_float ?db1 task_id t3) (task_key task_id))
              ''result'' = Some ''None''"
    using r1 by (simp add: redis_execute_begin_def hgetall_hset map_of_update_if)
  have r3: "map_of (hgetall (fst (redis_execute_run str_float json_dumps
                (redis_execute_begin str_float ?db1 task_id t3) task_id
                (RaisedException msg) t4)) (task_key task_id)) ''result'' = Some ''None''"
    using r2
    by (simp add: redis_execute_run_def redis_set_failed_def hgetall_hset map_of_update_if)
  show ?thesis
    unfolding s using r1 r2 r3 by (simp add: get_task_status_result_None)
qed

subsection \<open>The order of the lifecycle\<close>

lemma advances_refl: "advances a a"
  by (cases a) simp_all

lemma remdups_adj_head:
  "\<exists>r. remdups_adj (y # xs) = y # r"
  by (metis hd_remdups_adj list.collapse list.sel(1) remdups_adj_Nil_iff list.distinct(1))

lemma chain_lists:
  "successively advances xs \<Longrightarrow>
   remdups_adj xs \<in> {[], [PENDING], [PROCESSING], [COMPLETED], [FAILED],
      [PENDING, PROCESSING], [PROCESSING, COMPLETED], [PROCESSING, FAILED],
      [PENDING, PROCESSING, COMPLETED], [PENDING, PROCESSING, FAILED]}"
proof (induction xs rule: remdups_adj.induct)
  case 1
  show ?case by simp
next
  case (2 x)
  show ?case by (cases x) simp_all
next
  case (3 x y xs)
  from "3.prems" have a: "advances x y" and s: "successively advances (y # xs)" by simp_all
  show ?case
  proof (cases "x = y")
    case True
    with 3 s show ?thesis by simp
  next
    case False
    with 3 s have ih: "remdups_adj (y # xs) \<in> {[], [PENDING], [PROCESSING], [COMPLETED], [FAILED],
      [PENDING, PROCESSING], [PROCESSING, COMPLETED], [PROCESSING, FAILED],
      [PENDING, PROCESSING, COMPLETED], [PENDING, PROCESSING, FAILED]}" by simp
    obtain r where r: "remdups_adj (y # xs) = y # r" using remdups_adj_head [of y xs] by blast
    from False have "remdups_adj (x # y # xs) = x # y # r" using r by simp
    moreover from a False ih r have "x # y # r \<in> {[], [PENDING], [PROCESSING], [COMPLETED], [FAILED],
      [PENDING, PROCESSING], [PROCESSING, COMPLETED], [PROCESSING, FAILED],
      [PENDING, PROCESSING, COMPLETED], [PENDING, PROCESSING, FAILED]}"
      by (cases x; cases y) auto
    ultimately show ?thesis by simp
  qed
qed

lemma chain_subseq:
  assumes "successively advances xs"
  shows "subseq (remdups_adj xs) [PENDING, PROCESSING, COMPLETED] \<or>
         subseq (remdups_adj xs) [PENDING, PROCESSING, FAILED]"
  using chain_lists [OF assms] by auto


lemma submitted_app: "submitted (xs @ ys) = submitted xs @ submitted ys"
  by (induction xs rule: submitted.induct) simp_all



lemma exec_advances:
  assumes inv: "invariant evs q" and d: "distinct (submitted (evs @ [e]))"
    and t: "map_of (tasks q) k = Some t" and t': "map_of (tasks (exec q e)) k = Some t'"
  shows "advances (status t) (status t')"
proof -
  from inv have rec: "inv_rec evs q"
    and jq: "inv_job evs q PENDING (executor_queue q)"
    and jr: "inv_job evs q PROCESSING (executor_running q)"
    unfolding invariant_def by blast+
  from rec t have sub: "k \<in> set (submitted evs)" unfolding inv_rec_def by blast
  show ?thesis
  proof (cases e)
    case (Submit tid t1 t2 f)
    with d sub have "tid \<noteq> k" by (auto simp: submitted_app)
    with Submit t t' have "t' = t" by (simp add: TaskQueue_submit_def map_of_update_if)
    then show ?thesis by (simp add: advances_refl)
  next
    case (WorkerBegin now)
    show ?thesis
    proof (cases "executor_queue q")
      case Nil
      with WorkerBegin t t' show ?thesis by (simp add: advances_refl)
    next
      case (Cons j rest)
      obtain tid f where j: "j = (tid, f)" by (cases j)
      show ?thesis
      proof (cases "tid = k")
        case True
        from jq Cons j True t have "status t = PENDING" unfolding inv_job_def by auto
        with WorkerBegin Cons j True t t' show ?thesis
          by (auto simp: execute_task_begin_def map_of_update_if)
      next
        case False
        with WorkerBegin Cons j t t' have "t' = t"
          by (auto simp: execute_task_begin_def map_of_update_if split: option.splits)
        then show ?thesis by (simp add: advances_refl)
      qed
    qed
  next
    case (WorkerFinish tid now)
    show ?thesis
    proof (cases "map_of (executor_running q) tid")
      case None
      with WorkerFinish t t' show ?thesis by (simp add: advances_refl)
    next
      case (Some f)
      then have mem: "(tid, f) \<in> set (executor_running q)" by (rule map_of_SomeD)
      show ?thesis
      proof (cases "tid = k")
        case True
        from jr mem True t have "status t = PROCESSING" unfolding inv_job_def by auto
        with WorkerFinish Some True t t' show ?thesis
          by (cases f) (auto simp: map_of_execute_task_run)
      next
        case False
        with WorkerFinish Some t t' have "t' = t"
          by (auto simp: map_of_execute_task_run split: option.splits outcome.splits)
        then show ?thesis by (simp add: advances_refl)
      qed
    qed
  next
    case (Sweep now max_age)
    with t t' have "t' = t" by (auto simp: map_of_cleanup split: if_splits)
    then show ?thesis by (simp add: advances_refl)
  qed
qed

lemma observed_chain:
  assumes "invariant evs0 q" and "distinct (submitted (evs0 @ evs))"
  shows "case map_of (tasks q) k of
           Some t \<Rightarrow> successively advances (status t # observed q evs k)
         | None \<Rightarrow> successively advances (observed q evs k) \<and>
                   (k \<in> set (submitted evs0) \<longrightarrow> observed q evs k = [])"
  using assms
proof (induction evs arbitrary: evs0 q)
  case Nil
  show ?case by (simp split: option.splits)
next
  case (Cons e evs)
  have eq: "evs0 @ e # evs = (evs0 @ [e]) @ evs" by simp
  from Cons.prems(2) have d2: "distinct (submitted ((evs0 @ [e]) @ evs))"
    by (simp only: eq)
  then have d1: "distinct (submitted (evs0 @ [e]))"
    by (simp only: submitted_app [of "evs0 @ [e]" evs] distinct_append)
  from Cons.prems(1) d1 have inv': "invariant (evs0 @ [e]) (exec q e)" by (rule invariant_exec)
  note ih = Cons.IH [OF inv' d2]
  show ?case
  proof (cases "map_of (tasks q) k")
    case (Some t)
    from Cons.prems(1) Some have sub: "k \<in> set (submitted evs0)"
      unfolding invariant_def inv_rec_def by blast
    show ?thesis
    proof (cases "map_of (tasks (exec q e)) k")
      case None
      with ih sub Some show ?thesis by (simp add: submitted_app)
    next
      case (Some t')
      from exec_advances [OF Cons.prems(1) d1 \<open>map_of (tasks q) k = Some t\<close> Some]
      have "advances (status t) (status t')" .
      with ih Some \<open>map_of (tasks q) k = Some t\<close> show ?thesis by simp
    qed
  next
    case None
    show ?thesis
    proof (cases "k \<in> set (submitted evs0)")
      case True
      with d1 have "\<And>t1 t2 f. e \<noteq> Submit k t1 t2 f" by (auto simp: submitted_app)
      with None have "map_of (tasks (exec q e)) k = None" by (rule exec_no_creation)
      with ih True None show ?thesis by (simp add: submitted_app)
    next
      case False
      with ih None show ?thesis
        by (cases "map_of (tasks (exec q e)) k") (simp_all add: successively_Cons)
    qed
  qed
qed

lemma invariant_empty: "invariant [] empty_queue"
  by (simp add: invariant_def inv_rec_def inv_job_def empty_queue_def)

text \<open>
  C2. In a run of the queue from its creation in which every submission gets its own
  identifier, a step takes the status of a record that exists before and after it along
  the order \<^verbatim>\<open>PENDING\<close>, \<^verbatim>\<open>PROCESSING\<close>, then \<^verbatim>\<open>COMPLETED\<close> or \<^verbatim>\<open>FAILED\<close>, or leaves it; a
  status \<^verbatim>\<open>COMPLETED\<close> or \<^verbatim>\<open>FAILED\<close> is never changed; and the statuses that the record of an
  identifier shows over the run, repetitions dropped, are a subsequence of one of the two
  chains.
\<close>

theorem status_only_advances:
  assumes "distinct (submitted (evs @ [e]))"
  shows "(\<forall>t t'. get_task (run empty_queue evs) task_id = Some t \<and>
                 get_task (run empty_queue (evs @ [e])) task_id = Some t' \<longrightarrow>
            advances (status t) (status t') \<and>
            (status t = COMPLETED \<or> status t = FAILED \<longrightarrow> status t' = status t)) \<and>
         (subseq (remdups_adj (observed empty_queue (evs @ [e]) task_id))
            [PENDING, PROCESSING, COMPLETED] \<or>
          subseq (remdups_adj (observed empty_queue (evs @ [e]) task_id))
            [PENDING, PROCESSING, FAILED])"
proof -
  from assms have d: "distinct (submitted evs)" by (rule distinct_submitted_butlast)
  then have inv: "invariant evs (run empty_queue evs)" by (rule invariant_run)
  have step: "advances (status t) (status t') \<and>
      (status t = COMPLETED \<or> status t = FAILED \<longrightarrow> status t' = status t)"
    if a: "get_task (run empty_queue evs) task_id = Some t"
      and b: "get_task (run empty_queue (evs @ [e])) task_id = Some t'" for t t'
  proof -
    from a have a': "map_of (tasks (run empty_queue evs)) task_id = Some t"
      by (simp add: get_task_def)
    from b have b': "map_of (tasks (exec (run empty_queue evs) e)) task_id = Some t'"
      by (simp add: get_task_def run_snoc)
    from exec_advances [OF inv assms a' b'] have adv: "advances (status t) (status t')" .
    then show ?thesis by (cases "status t") auto
  qed
  from assms have "distinct (submitted ([] @ (evs @ [e])))" by simp
  with invariant_empty
  have "case map_of (tasks empty_queue) task_id of
           Some t \<Rightarrow> successively advances (status t # observed empty_queue (evs @ [e]) task_id)
         | None \<Rightarrow> successively advances (observed empty_queue (evs @ [e]) task_id) \<and>
                   (task_id \<in> set (submitted []) \<longrightarrow>
                      observed empty_queue (evs @ [e]) task_id = [])"
    by (rule observed_chain)
  then have "successively advances (observed empty_queue (evs @ [e]) task_id)"
    by (simp add: empty_queue_def)
  then have "subseq (remdups_adj (observed empty_queue (evs @ [e]) task_id))
            [PENDING, PROCESSING, COMPLETED] \<or>
          subseq (remdups_adj (observed empty_queue (evs @ [e]) task_id))
            [PENDING, PROCESSING, FAILED]"
    by (rule chain_subseq)
  with step show ?thesis by blast
qed

theorem status_only_advances_witness:
  "distinct (submitted ([Submit ''a'' 1 2 (Returned (PyInt 7)), WorkerBegin 3]
      @ [WorkerFinish ''a'' 4])) \<and>
   map_option status
     (get_task (run empty_queue [Submit ''a'' 1 2 (Returned (PyInt 7)), WorkerBegin 3]) ''a'')
     = Some PROCESSING \<and>
   map_option status
     (get_task (run empty_queue ([Submit ''a'' 1 2 (Returned (PyInt 7)), WorkerBegin 3]
        @ [WorkerFinish ''a'' 4])) ''a'') = Some COMPLETED \<and>
   advances PROCESSING COMPLETED \<and>
   observed empty_queue ([Submit ''a'' 1 2 (Returned (PyInt 7)), WorkerBegin 3]
      @ [WorkerFinish ''a'' 4]) ''a'' = [PENDING, PROCESSING, COMPLETED] \<and>
   (subseq (remdups_adj (observed empty_queue
        ([Submit ''a'' 1 2 (Returned (PyInt 7)), WorkerBegin 3] @ [WorkerFinish ''a'' 4]) ''a''))
      [PENDING, PROCESSING, COMPLETED] \<or>
    subseq (remdups_adj (observed empty_queue
        ([Submit ''a'' 1 2 (Returned (PyInt 7)), WorkerBegin 3] @ [WorkerFinish ''a'' 4]) ''a''))
      [PENDING, PROCESSING, FAILED])"
proof -
  let ?evs = "[Submit ''a'' 1 2 (Returned (PyInt 7)), WorkerBegin 3]"
  let ?e = "WorkerFinish ''a'' 4"
  have h: "distinct (submitted (?evs @ [?e]))" by simp
  have a: "map_option status (get_task (run empty_queue ?evs) ''a'') = Some PROCESSING"
    by (simp add: run_def empty_queue_def TaskQueue_submit_def execute_task_begin_def
          get_task_def)
  have b: "map_option status (get_task (run empty_queue (?evs @ [?e])) ''a'') = Some COMPLETED"
    by (simp add: run_def empty_queue_def TaskQueue_submit_def execute_task_begin_def
          execute_task_run_def set_completed_def get_task_def)
  have o: "observed empty_queue (?evs @ [?e]) ''a'' = [PENDING, PROCESSING, COMPLETED]"
    by (simp add: empty_queue_def TaskQueue_submit_def execute_task_begin_def
          execute_task_run_def set_completed_def)
  from status_only_advances [OF h, of "''a''"] h a b o
  show ?thesis by simp
qed

subsection \<open>Result, error and timestamps of a record\<close>

text \<open>
  C8, as stated, fails. A callable that returns \<^verbatim>\<open>None\<close> leaves its record \<^verbatim>\<open>COMPLETED\<close> with
  \<^verbatim>\<open>result = None\<close> and \<^verbatim>\<open>error = None\<close>: a terminal state with neither of the two set.
\<close>

theorem exactly_one_set_counterexample:
  "map_option (\<lambda>t. (status t, result t, error t))
     (get_task (run empty_queue
        [Submit ''a'' 1 2 (Returned PyNone), WorkerBegin 3, WorkerFinish ''a'' 4]) ''a'')
   = Some (COMPLETED, PyNone, None)"
  by (simp add: run_def empty_queue_def TaskQueue_submit_def execute_task_begin_def
        execute_task_run_def set_completed_def get_task_def)

text \<open>
  C8, amended. In a run of the queue from its creation in which every submission gets its
  own identifier, every record has its result set only when it is \<^verbatim>\<open>COMPLETED\<close> and its
  error only when it is \<^verbatim>\<open>FAILED\<close>, so neither is set before a terminal state and never
  both. A \<^verbatim>\<open>FAILED\<close> record has its error set, to the text of the exception its callable
  raised, and no result. A \<^verbatim>\<open>COMPLETED\<close> record has no error and its result is the value its
  callable returned: set unless that value is \<^verbatim>\<open>None\<close>.
\<close>

theorem result_error_by_status:
  assumes "distinct (submitted evs)" and "get_task (run empty_queue evs) task_id = Some t"
  shows "(result t \<noteq> PyNone \<longrightarrow> status t = COMPLETED) \<and>
         (error t \<noteq> None \<longrightarrow> status t = FAILED) \<and>
         (status t = FAILED \<longrightarrow>
            result t = PyNone \<and> error t \<noteq> None \<and>
            func_of evs task_id = Some (RaisedException (the (error t)))) \<and>
         (status t = COMPLETED \<longrightarrow>
            error t = None \<and> func_of evs task_id = Some (Returned (result t)))"
proof -
  from assms(1) have "invariant evs (run empty_queue evs)" by (rule invariant_run)
  with assms(2) have "fields_ok (func_of evs task_id) t"
    unfolding invariant_def inv_rec_def get_task_def by blast
  then show ?thesis
    by (cases "status t") (auto simp: fields_ok_def split: option.splits)
qed

theorem result_error_by_status_witness:
  "distinct (submitted [Submit ''a'' 1 2 (Returned (PyInt 7)), WorkerBegin 3,
      Submit ''b'' 3 3 (RaisedException ''boom''), WorkerFinish ''a'' 4, WorkerBegin 5,
      WorkerFinish ''b'' 6]) \<and>
   map_option (\<lambda>t. (status t, result t, error t))
     (get_task (run empty_queue [Submit ''a'' 1 2 (Returned (PyInt 7)), WorkerBegin 3,
      Submit ''b'' 3 3 (RaisedException ''boom''), WorkerFinish ''a'' 4, WorkerBegin 5,
      WorkerFinish ''b'' 6]) ''a'') = Some (COMPLETED, PyInt 7, None) \<and>
   map_option (\<lambda>t. (status t, result t, error t))
     (get_task (run empty_queue [Submit ''a'' 1 2 (Returned (PyInt 7)), WorkerBegin 3,
      Submit ''b'' 3 3 (RaisedException ''boom''), WorkerFinish ''a'' 4, WorkerBegin 5,
      WorkerFinish ''b'' 6]) ''b'') = Some (FAILED, PyNone, Some ''boom'') \<and>
   func_of [Submit ''a'' 1 2 (Returned (PyInt 7)), WorkerBegin 3,
      Submit ''b'' 3 3 (RaisedException ''boom''), WorkerFinish ''a'' 4, WorkerBegin 5,
      WorkerFinish ''b'' 6] ''b'' = Some (RaisedException ''boom'')"
proof -
  let ?evs = "[Submit ''a'' 1 2 (Returned (PyInt 7)), WorkerBegin 3,
      Submit ''b'' 3 3 (RaisedException ''boom''), WorkerFinish ''a'' 4, WorkerBegin 5,
      WorkerFinish ''b'' 6]"
  let ?a = "\<lparr>id_field = ''a'', status = COMPLETED, created_at = 1, updated_at = 4,
             result = PyInt 7, error = None\<rparr>"
  let ?b = "\<lparr>id_field = ''b'', status = FAILED, created_at = 3, updated_at = 6,
             result = PyNone, error = Some ''boom''\<rparr>"
  have d: "distinct (submitted ?evs)" by simp
  have a: "get_task (run empty_queue ?evs) ''a'' = Some ?a"
    by (simp add: run_def empty_queue_def TaskQueue_submit_def execute_task_begin_def
          execute_task_run_def set_completed_def set_failed_def get_task_def)
  have b: "get_task (run empty_queue ?evs) ''b'' = Some ?b"
    by (simp add: run_def empty_queue_def TaskQueue_submit_def execute_task_begin_def
          execute_task_run_def set_completed_def set_failed_def get_task_def)
  from result_error_by_status [OF d b] result_error_by_status [OF d a] d a b
  show ?thesis by simp
qed




end
